theory Spec2Isabelle
  imports Main "HOL-Library.Product_Lexorder"
begin

text \<open>
  The knowledge-based Minesweeper player of \<^verbatim>\<open>minesweeper.py\<close>: the class \<^verbatim>\<open>Sentence\<close>,
  the class \<^verbatim>\<open>MinesweeperAI\<close> and, of the class \<^verbatim>\<open>Minesweeper\<close>, the count of nearby
  mines.  A Python set is a HOL set, a Python integer an \<open>int\<close>, and an object that is
  changed in place is a value passed on.
\<close>

section \<open>Sentences\<close>

type_synonym cell = "int \<times> int"

text \<open>
  \<^verbatim>\<open>Sentence\<close>: a set of cells and the number of mines among them.  Equality of records
  is \<^verbatim>\<open>Sentence.__eq__\<close>: the same cells and the same count.
\<close>

record sentence =
  cells :: "cell set"
  count :: int

definition known_mines :: "sentence \<Rightarrow> cell set option" where
  "known_mines s = (if count s = int (card (cells s)) then Some (cells s) else None)"

definition known_safes :: "sentence \<Rightarrow> cell set option" where
  "known_safes s = (if count s = 0 then Some (cells s) else None)"

text \<open>
  The tests \<^verbatim>\<open>if sentence.known_safes():\<close> and \<^verbatim>\<open>if sentence.known_mines():\<close> read the
  returned value as a truth value: \<^verbatim>\<open>None\<close> and the empty set are false.
\<close>

definition truthy :: "cell set option \<Rightarrow> bool" where
  "truthy r = (case r of None \<Rightarrow> False | Some C \<Rightarrow> C \<noteq> {})"

text \<open>\<^verbatim>\<open>Sentence.mark_mine\<close> and \<^verbatim>\<open>Sentence.mark_safe\<close>.\<close>

definition sentence_mark_mine :: "cell \<Rightarrow> sentence \<Rightarrow> sentence" where
  "sentence_mark_mine c s =
     (if c \<in> cells s then s\<lparr>cells := cells s - {c}, count := count s - 1\<rparr> else s)"

definition sentence_mark_safe :: "cell \<Rightarrow> sentence \<Rightarrow> sentence" where
  "sentence_mark_safe c s = (if c \<in> cells s then s\<lparr>cells := cells s - {c}\<rparr> else s)"

section \<open>The engine\<close>

text \<open>
  \<^verbatim>\<open>MinesweeperAI\<close>.  The sentences of \<^verbatim>\<open>self.knowledge\<close> are objects of their own, each
  with a cell set of its own (\<^verbatim>\<open>Sentence.__init__\<close> copies the set it is given), so the
  list of their values is the whole of the knowledge base.
\<close>

record ai =
  height :: int
  width :: int
  moves_made :: "cell set"
  mines :: "cell set"
  safes :: "cell set"
  knowledge :: "sentence list"

definition init_ai :: "int \<Rightarrow> int \<Rightarrow> ai" where
  "init_ai h w = \<lparr>height = h, width = w, moves_made = {}, mines = {}, safes = {}, knowledge = []\<rparr>"

definition mark_mine :: "cell \<Rightarrow> ai \<Rightarrow> ai" where
  "mark_mine c st = st\<lparr>mines := insert c (mines st),
                        knowledge := map (sentence_mark_mine c) (knowledge st)\<rparr>"

definition mark_safe :: "cell \<Rightarrow> ai \<Rightarrow> ai" where
  "mark_safe c st = st\<lparr>safes := insert c (safes st),
                        knowledge := map (sentence_mark_safe c) (knowledge st)\<rparr>"

text \<open>
  The cells around \<open>c\<close> that are on the board, as \<^verbatim>\<open>add_knowledge\<close> collects them:
  \<^verbatim>\<open>range(x-1, x+2)\<close> is \<open>[x - 1 .. x + 1]\<close>.
\<close>

definition neighbors :: "ai \<Rightarrow> cell \<Rightarrow> cell set" where
  "neighbors st c =
     set (concat (map (\<lambda>i. concat (map (\<lambda>j.
            if 0 \<le> i \<and> i < height st \<and> 0 \<le> j \<and> j < width st \<and> (i, j) \<noteq> c then [(i, j)] else [])
          [snd c - 1 .. snd c + 1])) [fst c - 1 .. fst c + 1]))"

text \<open>
  One round of the loop over \<^verbatim>\<open>list(self.knowledge)\<close>, for the sentence at index \<open>i\<close>
  (the copied list holds the same objects, and no sentence is added during that loop).
  The sentence is read again for the second test, after the first branch may have
  emptied it.  Each inner loop runs over a copy of the sentence's cell set in the set's
  own order; here the order is the sorted one, and \<open>mark_safe_order\<close> and
  \<open>mark_mine_order\<close> below show that the order does not matter.
\<close>

definition certain_at :: "nat \<Rightarrow> ai \<times> bool \<Rightarrow> ai \<times> bool" where
  "certain_at i acc =
     (let (st1, found1) =
            (if truthy (known_safes (knowledge (fst acc) ! i))
             then (fold mark_safe (sorted_list_of_set (cells (knowledge (fst acc) ! i))) (fst acc), True)
             else acc)
      in if truthy (known_mines (knowledge st1 ! i))
         then (fold mark_mine (sorted_list_of_set (cells (knowledge st1 ! i))) st1, True)
         else (st1, found1))"

definition certain_pass :: "ai \<Rightarrow> ai \<times> bool" where
  "certain_pass st = fold certain_at [0 ..< length (knowledge st)] (st, False)"

text \<open>
  Subset resolution: \<open>derive s1 s2\<close> is \<^verbatim>\<open>Sentence(temp_k, temp_c)\<close>, and
  \<open>newly_inferred\<close> is the list of that name, built by the nested loop over pairs.
\<close>

definition derive :: "sentence \<Rightarrow> sentence \<Rightarrow> sentence" where
  "derive s1 s2 = \<lparr>cells = cells s1 - cells s2, count = count s1 - count s2\<rparr>"

definition newly_inferred :: "sentence list \<Rightarrow> sentence list" where
  "newly_inferred K =
     concat (map (\<lambda>s1. concat (map (\<lambda>s2.
        if s1 = s2 then []
        else if cells s2 \<subseteq> cells s1
             then (if derive s1 s2 \<notin> set K then [derive s1 s2] else [])
             else []) K)) K)"

text \<open>
  One pass of the loop's body, with the value of \<^verbatim>\<open>new_info_found\<close> at its end.
\<close>

definition loop_pass :: "ai \<Rightarrow> ai \<times> bool" where
  "loop_pass st =
     (let (st1, found) = certain_pass st;
          new = newly_inferred (knowledge st1)
      in if new \<noteq> [] then (st1\<lparr>knowledge := knowledge st1 @ new\<rparr>, True) else (st1, found))"

text \<open>
  The \<^verbatim>\<open>while True\<close> loop of \<^verbatim>\<open>add_knowledge\<close>: a pass, then another pass as long as
  the last one found something.  The loop has no bound of its own, so not returning is
  the value \<open>None\<close>.
\<close>

partial_function (option) deduce :: "ai \<Rightarrow> ai option" where
  "deduce st = (case loop_pass st of (st', found) \<Rightarrow> if found then deduce st' else Some st')"

text \<open>
  \<^verbatim>\<open>add_knowledge\<close>: steps 1 to 3 record the move, mark the cell safe and append the new
  sentence; then the loop runs.
\<close>

definition observed :: "cell \<Rightarrow> int \<Rightarrow> ai \<Rightarrow> ai" where
  "observed c n st =
     (let st1 = st\<lparr>moves_made := insert c (moves_made st)\<rparr>;
          st2 = mark_safe c st1
      in st2\<lparr>knowledge := knowledge st2 @ [\<lparr>cells = neighbors st2 c, count = n\<rparr>]\<rparr>)"

definition add_knowledge :: "cell \<Rightarrow> int \<Rightarrow> ai \<Rightarrow> ai option" where
  "add_knowledge c n st = deduce (observed c n st)"

declare deduce.simps [code]

text \<open>The engine after \<open>k\<close> passes of the loop.\<close>

fun passes :: "nat \<Rightarrow> ai \<Rightarrow> ai" where
  "passes 0 st = st"
| "passes (Suc k) st = passes k (fst (loop_pass st))"

section \<open>Move queries\<close>

text \<open>
  \<^verbatim>\<open>make_safe_move\<close> walks \<^verbatim>\<open>self.safes\<close> in the iteration order of a Python set,
  which the language leaves open: the order is the parameter \<open>order\<close>, a list whose
  elements are those of \<open>safes st\<close>.  Both queries return the engine beside their
  result, so that what they do to it can be stated.
\<close>

definition make_safe_move :: "cell list \<Rightarrow> ai \<Rightarrow> cell option \<times> ai" where
  "make_safe_move order st = (find (\<lambda>i. i \<notin> moves_made st) order, st)"

definition possible_moves :: "ai \<Rightarrow> cell list" where
  "possible_moves st =
     concat (map (\<lambda>i. concat (map (\<lambda>j.
        if (i, j) \<notin> moves_made st \<and> (i, j) \<notin> mines st then [(i, j)] else [])
      [0 .. width st - 1])) [0 .. height st - 1])"

text \<open>
  \<^verbatim>\<open>random.choice(xs)\<close> is \<^verbatim>\<open>xs[k]\<close> for an index \<open>k < len(xs)\<close> drawn uniformly; the
  drawn index is the parameter \<open>k\<close>.
\<close>

definition make_random_move :: "nat \<Rightarrow> ai \<Rightarrow> cell option \<times> ai" where
  "make_random_move k st =
     (if possible_moves st \<noteq> [] then Some (possible_moves st ! k) else None, st)"

section \<open>The board and a game's observations\<close>

text \<open>
  \<^verbatim>\<open>Minesweeper.nearby_mines\<close>, the count the board reports for a cell: \<open>M\<close> is the
  set of cells \<open>(i, j)\<close> with \<^verbatim>\<open>board[i][j]\<close> true.
\<close>

definition nearby_mines :: "int \<Rightarrow> int \<Rightarrow> cell set \<Rightarrow> cell \<Rightarrow> int" where
  "nearby_mines h w M c =
     fold (\<lambda>i cnt. fold (\<lambda>j cnt.
        if (i, j) = c then cnt
        else if 0 \<le> i \<and> i < h \<and> 0 \<le> j \<and> j < w then (if (i, j) \<in> M then cnt + 1 else cnt)
        else cnt) [snd c - 1 .. snd c + 1] cnt) [fst c - 1 .. fst c + 1] 0"

text \<open>
  An observation \<open>(c, n)\<close> of a game on the mine placement \<open>M\<close>: the revealed cell \<open>c\<close>
  is on the board and is no mine (\<^verbatim>\<open>add_knowledge\<close> is "called when the Minesweeper board
  tells us, for a given safe cell, how many neighboring cells have mines in them"), and
  \<open>n\<close> is the count the board reports for it.
\<close>

definition valid_observation :: "int \<Rightarrow> int \<Rightarrow> cell set \<Rightarrow> cell \<times> int \<Rightarrow> bool" where
  "valid_observation h w M ob =
     (0 \<le> fst (fst ob) \<and> fst (fst ob) < h \<and> 0 \<le> snd (fst ob) \<and> snd (fst ob) < w \<and>
      fst ob \<notin> M \<and> snd ob = nearby_mines h w M (fst ob))"

text \<open>A sequence of \<^verbatim>\<open>add_knowledge\<close> calls; it returns only if every call does.\<close>

fun observe_all :: "(cell \<times> int) list \<Rightarrow> ai \<Rightarrow> ai option" where
  "observe_all [] st = Some st"
| "observe_all (ob # obs) st =
     (case add_knowledge (fst ob) (snd ob) st of
        None \<Rightarrow> None
      | Some st' \<Rightarrow> observe_all obs st')"

text \<open>The states an engine created for an \<open>h\<close> by \<open>w\<close> board can be in.\<close>

inductive reachable :: "int \<Rightarrow> int \<Rightarrow> ai \<Rightarrow> bool" for h w where
  fresh: "reachable h w (init_ai h w)"
| by_add_knowledge: "reachable h w st \<Longrightarrow> add_knowledge c n st = Some st' \<Longrightarrow> reachable h w st'"
| by_mark_mine: "reachable h w st \<Longrightarrow> reachable h w (mark_mine c st)"
| by_mark_safe: "reachable h w st \<Longrightarrow> reachable h w (mark_safe c st)"
| by_make_safe_move:
    "reachable h w st \<Longrightarrow> set order = safes st \<Longrightarrow> reachable h w (snd (make_safe_move order st))"
| by_make_random_move: "reachable h w st \<Longrightarrow> reachable h w (snd (make_random_move k st))"

section \<open>Relations between engine states\<close>

text \<open>
  What every operation keeps: the board's size and the moves made stay, the known safes
  and known mines only grow.
\<close>

definition grows :: "ai \<Rightarrow> ai \<Rightarrow> bool" where
  "grows st st' \<longleftrightarrow>
     height st' = height st \<and> width st' = width st \<and> moves_made st' = moves_made st \<and>
     safes st \<subseteq> safes st' \<and> mines st \<subseteq> mines st'"

text \<open>The cells of the board, and the cells some sentence still mentions.\<close>

definition board :: "ai \<Rightarrow> cell set" where
  "board st = {0..<height st} \<times> {0..<width st}"

definition mentioned :: "ai \<Rightarrow> cell set" where
  "mentioned st = \<Union> (cells ` set (knowledge st))"

text \<open>
  The engine's knowledge is true of the mine placement \<open>M\<close>: every sentence is about board
  cells and counts the mines among them, every known mine is a mine and no known safe
  cell is.
\<close>

definition sound :: "cell set \<Rightarrow> ai \<Rightarrow> bool" where
  "sound M st \<longleftrightarrow>
     (\<forall>s\<in>set (knowledge st). cells s \<subseteq> board st \<and> count s = int (card (cells s \<inter> M))) \<and>
     mines st \<subseteq> M \<and> safes st \<inter> M = {}"

text \<open>
  The order in which a pass that found something leaves the engine lower: fewer cells
  mentioned, or as many and fewer cell sets of the board that no sentence has.
\<close>

definition pass_order :: "(ai \<times> ai) set" where
  "pass_order =
     inv_image (less_than <*lex*> less_than)
       (\<lambda>st. (card (mentioned st), card (Pow (board st) - cells ` set (knowledge st))))"

text \<open>
  A knowledge base that grows in every pass: all its sentences have lost their cells, and
  two of them disagree on the count.
\<close>

definition breeding :: "ai \<Rightarrow> bool" where
  "breeding st \<longleftrightarrow>
     (\<forall>s\<in>set (knowledge st). cells s = {}) \<and>
     (\<exists>a\<in>set (knowledge st). \<exists>b\<in>set (knowledge st). count a \<noteq> count b)"

section \<open>Sentences: conclusions and narrowing\<close>

text \<open>
  Claim C6.  \<^verbatim>\<open>known_mines()\<close> returns the sentence's cell set exactly when the count
  equals the number of cells, and no conclusion otherwise; \<^verbatim>\<open>known_safes()\<close> returns the
  cell set exactly when the count is 0, and no conclusion otherwise.  With no cells and
  count 0, \<^verbatim>\<open>known_mines()\<close> returns the empty set, and the sentence
  \<open>{(0,0),(0,1)} = 2\<close> yields \<open>{(0,0),(0,1)}\<close>.
\<close>

theorem sentence_conclusions:
  "(known_mines s = Some (cells s) \<longleftrightarrow> count s = int (card (cells s)))
   \<and> (known_mines s = None \<longleftrightarrow> count s \<noteq> int (card (cells s)))
   \<and> (known_safes s = Some (cells s) \<longleftrightarrow> count s = 0)
   \<and> (known_safes s = None \<longleftrightarrow> count s \<noteq> 0)
   \<and> known_mines \<lparr>cells = {}, count = 0\<rparr> = Some {}
   \<and> known_mines \<lparr>cells = {(0, 0), (0, 1)}, count = 2\<rparr> = Some {(0, 0), (0, 1)}"
  by (simp add: known_mines_def known_safes_def)

lemma sentence_mark_mine_idem:
  "sentence_mark_mine c (sentence_mark_mine c s) = sentence_mark_mine c s"
  by (simp add: sentence_mark_mine_def)

lemma sentence_mark_safe_idem:
  "sentence_mark_safe c (sentence_mark_safe c s) = sentence_mark_safe c s"
  by (simp add: sentence_mark_safe_def)

text \<open>
  Claim C7.  Reporting the same cell safe twice leaves the engine (safes, mines, moves
  made and every sentence) as reporting it once does, and so does reporting the same cell
  a mine twice.
\<close>

theorem mark_twice:
  "mark_safe c (mark_safe c st) = mark_safe c st
   \<and> mark_mine c (mark_mine c st) = mark_mine c st"
  by (simp add: mark_safe_def mark_mine_def sentence_mark_mine_idem sentence_mark_safe_idem
      comp_def)

section \<open>The move queries\<close>

text \<open>
  Claim C9.  \<^verbatim>\<open>make_safe_move\<close> and \<^verbatim>\<open>make_random_move\<close> leave the whole engine as it
  was: moves made, known mines, known safes and every sentence.
\<close>

theorem move_queries_frame:
  "snd (make_safe_move order st) = st \<and> snd (make_random_move k st) = st"
  by (simp add: make_safe_move_def make_random_move_def)

lemma concat_if_filter:
  "concat (map (\<lambda>j. if P j then [f j] else []) js) = map f (filter P js)"
  by (induction js) auto

lemma concat_rows_filter:
  "concat (map (\<lambda>i. concat (map (\<lambda>j. if P (i, j) then [(i, j)] else []) js)) is) =
   filter P (List.product is js)"
proof (induction "is")
  case Nil
  show ?case by simp
next
  case (Cons i "is")
  have "concat (map (\<lambda>j. if P (i, j) then [(i, j)] else []) js) = filter P (map (Pair i) js)"
    by (induction js) auto
  with Cons show ?case by simp
qed

lemma possible_moves_filter:
  "possible_moves st =
   filter (\<lambda>p. p \<notin> moves_made st \<and> p \<notin> mines st)
     (List.product [0 .. height st - 1] [0 .. width st - 1])"
  unfolding possible_moves_def
  using concat_rows_filter [of "\<lambda>p. p \<notin> moves_made st \<and> p \<notin> mines st"] by simp

lemma distinct_possible_moves: "distinct (possible_moves st)"
  by (simp add: possible_moves_filter distinct_product)

lemma set_possible_moves:
  "set (possible_moves st) = ({0..<height st} \<times> {0..<width st}) - moves_made st - mines st"
  by (auto simp: possible_moves_filter)

lemma find_None_iff_all: "find P xs = None \<longleftrightarrow> (\<forall>x\<in>set xs. \<not> P x)"
  by (induction xs) auto

text \<open>
  Claim C8.  \<^verbatim>\<open>make_random_move\<close> draws from a list that holds every board cell that is
  neither played nor a known mine exactly once, so that a uniform index is a uniform
  candidate; it returns no move exactly when there is no candidate.  An engine whose
  known safes are its moves made, and whose other board cells are all known mines, gets
  no move from either query.
\<close>

theorem move_queries_none:
  "distinct (possible_moves st)
   \<and> set (possible_moves st) = {0..<height st} \<times> {0..<width st} - moves_made st - mines st
   \<and> bij_betw (\<lambda>k. possible_moves st ! k) {..<length (possible_moves st)}
        ({0..<height st} \<times> {0..<width st} - moves_made st - mines st)
   \<and> (k < length (possible_moves st) \<longrightarrow>
        fst (make_random_move k st) = Some (possible_moves st ! k))
   \<and> (fst (make_random_move k st) = None \<longleftrightarrow>
        {0..<height st} \<times> {0..<width st} - moves_made st - mines st = {})
   \<and> (set order = safes st \<and> safes st = moves_made st \<and>
        {0..<height st} \<times> {0..<width st} - moves_made st \<subseteq> mines st \<longrightarrow>
        fst (make_random_move k st) = None \<and> fst (make_safe_move order st) = None)"
proof -
  let ?cand = "{0..<height st} \<times> {0..<width st} - moves_made st - mines st"
  have d: "distinct (possible_moves st)" by (rule distinct_possible_moves)
  have s: "set (possible_moves st) = ?cand" by (rule set_possible_moves)
  have b: "bij_betw (\<lambda>k. possible_moves st ! k) {..<length (possible_moves st)} ?cand"
    using bij_betw_nth [OF d, of "{..<length (possible_moves st)}" ?cand] s by simp
  have "possible_moves st = [] \<longleftrightarrow> ?cand = {}"
    using s set_empty [of "possible_moves st"] by simp
  then have n: "fst (make_random_move k st) = None \<longleftrightarrow> ?cand = {}"
    by (simp add: make_random_move_def)
  have r: "k < length (possible_moves st) \<longrightarrow>
        fst (make_random_move k st) = Some (possible_moves st ! k)"
    by (auto simp: make_random_move_def)
  have e: "set order = safes st \<and> safes st = moves_made st \<and>
        {0..<height st} \<times> {0..<width st} - moves_made st \<subseteq> mines st \<longrightarrow>
        fst (make_random_move k st) = None \<and> fst (make_safe_move order st) = None"
  proof (intro impI conjI)
    assume a: "set order = safes st \<and> safes st = moves_made st \<and>
        {0..<height st} \<times> {0..<width st} - moves_made st \<subseteq> mines st"
    then have "?cand = {}" by blast
    with n show "fst (make_random_move k st) = None" by simp
    from a show "fst (make_safe_move order st) = None"
      by (simp add: make_safe_move_def find_None_iff_all)
  qed
  from d s b r n e show ?thesis by blast
qed

theorem move_queries_none_witness:
  "set [(0, 0)] = safes ((init_ai 1 1)\<lparr>moves_made := {(0, 0)}, safes := {(0, 0)}\<rparr>)
   \<and> fst (make_random_move 0 ((init_ai 1 1)\<lparr>moves_made := {(0, 0)}, safes := {(0, 0)}\<rparr>)) = None
   \<and> fst (make_safe_move [(0, 0)] ((init_ai 1 1)\<lparr>moves_made := {(0, 0)}, safes := {(0, 0)}\<rparr>)) = None
   \<and> (0::nat) < length (possible_moves (init_ai 1 2))
   \<and> fst (make_random_move 0 (init_ai 1 2)) = Some (possible_moves (init_ai 1 2) ! 0)"
  using move_queries_none [of "(init_ai 1 1)\<lparr>moves_made := {(0, 0)}, safes := {(0, 0)}\<rparr>" 0 "[(0, 0)]"]
    move_queries_none [of "init_ai 1 2" 0 "[]"]
  by (simp add: init_ai_def possible_moves_def upto.simps)

section \<open>Subset resolution\<close>

lemma newly_inferred_iff:
  "n \<in> set (newly_inferred K) \<longleftrightarrow>
   (\<exists>s1\<in>set K. \<exists>s2\<in>set K. s1 \<noteq> s2 \<and> cells s2 \<subseteq> cells s1 \<and> n = derive s1 s2 \<and> n \<notin> set K)"
  by (auto simp: newly_inferred_def split: if_splits)

lemma knowledge_loop_pass:
  "knowledge (fst (loop_pass st)) =
   knowledge (fst (certain_pass st)) @ newly_inferred (knowledge (fst (certain_pass st)))"
  by (simp add: loop_pass_def Let_def split: prod.splits)

text \<open>
  Claim C3.  For every ordered pair of distinct sentences \<open>(A, B)\<close> that the knowledge base
  holds when a pass reaches its subset resolution (that is, after the pass has reported
  its certain cells), with the cells of \<open>B\<close> among those of \<open>A\<close>, the sentence
  \<open>(cells A - cells B, count A - count B)\<close> is in the knowledge base after the pass.  From
  \<open>{(1,1),(1,2),(2,1)} = 1\<close> and \<open>{(1,1),(1,2)} = 1\<close> the resolution derives
  \<open>{(2,1)} = 0\<close>, and the loop run on these two sentences returns with \<open>(2,1)\<close> known
  safe.
\<close>

theorem subset_resolution:
  "(A \<in> set (knowledge (fst (certain_pass st))) \<and> B \<in> set (knowledge (fst (certain_pass st)))
      \<and> A \<noteq> B \<and> cells B \<subseteq> cells A \<longrightarrow>
      \<lparr>cells = cells A - cells B, count = count A - count B\<rparr> \<in> set (knowledge (fst (loop_pass st))))
   \<and> newly_inferred [\<lparr>cells = {(1, 1), (1, 2), (2, 1)}, count = 1\<rparr>, \<lparr>cells = {(1, 1), (1, 2)}, count = 1\<rparr>]
       = [\<lparr>cells = {(2, 1)}, count = 0\<rparr>]
   \<and> deduce \<lparr>height = 3, width = 3, moves_made = {}, mines = {}, safes = {},
        knowledge = [\<lparr>cells = {(1, 1), (1, 2), (2, 1)}, count = 1\<rparr>,
                     \<lparr>cells = {(1, 1), (1, 2)}, count = 1\<rparr>]\<rparr>
       = Some \<lparr>height = 3, width = 3, moves_made = {}, mines = {}, safes = {(2, 1)},
        knowledge = [\<lparr>cells = {(1, 1), (1, 2)}, count = 1\<rparr>,
                     \<lparr>cells = {(1, 1), (1, 2)}, count = 1\<rparr>,
                     \<lparr>cells = {}, count = 0\<rparr>]\<rparr>"
proof (intro conjI impI)
  assume a: "A \<in> set (knowledge (fst (certain_pass st))) \<and> B \<in> set (knowledge (fst (certain_pass st)))
      \<and> A \<noteq> B \<and> cells B \<subseteq> cells A"
  let ?K = "knowledge (fst (certain_pass st))"
  have "derive A B \<in> set ?K \<or> derive A B \<in> set (newly_inferred ?K)"
    using a unfolding newly_inferred_iff by blast
  then show "\<lparr>cells = cells A - cells B, count = count A - count B\<rparr> \<in> set (knowledge (fst (loop_pass st)))"
    by (auto simp: knowledge_loop_pass derive_def)
next
  show "newly_inferred [\<lparr>cells = {(1, 1), (1, 2), (2, 1)}, count = 1\<rparr>, \<lparr>cells = {(1, 1), (1, 2)}, count = 1\<rparr>]
       = [\<lparr>cells = {(2, 1)}, count = 0\<rparr>]"
    by code_simp
next
  show "deduce \<lparr>height = 3, width = 3, moves_made = {}, mines = {}, safes = {},
        knowledge = [\<lparr>cells = {(1, 1), (1, 2), (2, 1)}, count = 1\<rparr>,
                     \<lparr>cells = {(1, 1), (1, 2)}, count = 1\<rparr>]\<rparr>
       = Some \<lparr>height = 3, width = 3, moves_made = {}, mines = {}, safes = {(2, 1)},
        knowledge = [\<lparr>cells = {(1, 1), (1, 2)}, count = 1\<rparr>,
                     \<lparr>cells = {(1, 1), (1, 2)}, count = 1\<rparr>,
                     \<lparr>cells = {}, count = 0\<rparr>]\<rparr>"
    by code_simp
qed

theorem subset_resolution_witness:
  "\<lparr>cells = {(1, 1), (1, 2), (2, 1)}, count = 1\<rparr> \<in> set (knowledge (fst (certain_pass
       ((init_ai 3 3)\<lparr>knowledge := [\<lparr>cells = {(1, 1), (1, 2), (2, 1)}, count = 1\<rparr>,
                                        \<lparr>cells = {(1, 1), (1, 2)}, count = 1\<rparr>]\<rparr>))))
   \<and> \<lparr>cells = {(1, 1), (1, 2)}, count = 1\<rparr> \<in> set (knowledge (fst (certain_pass
       ((init_ai 3 3)\<lparr>knowledge := [\<lparr>cells = {(1, 1), (1, 2), (2, 1)}, count = 1\<rparr>,
                                        \<lparr>cells = {(1, 1), (1, 2)}, count = 1\<rparr>]\<rparr>))))
   \<and> \<lparr>cells = {(1, 1), (1, 2), (2, 1)}, count = 1\<rparr> \<noteq> \<lparr>cells = {(1, 1), (1, 2)}, count = 1\<rparr>
   \<and> cells \<lparr>cells = {(1, 1), (1, 2)}, count = 1\<rparr> \<subseteq> cells \<lparr>cells = {(1, 1), (1, 2), (2, 1)}, count = 1\<rparr>
   \<and> \<lparr>cells = cells \<lparr>cells = {(1, 1), (1, 2), (2, 1)}, count = 1\<rparr> - cells \<lparr>cells = {(1, 1), (1, 2)}, count = 1\<rparr>,
       count = count \<lparr>cells = {(1, 1), (1, 2), (2, 1)}, count = 1\<rparr> - count \<lparr>cells = {(1, 1), (1, 2)}, count = 1\<rparr>\<rparr>
       \<in> set (knowledge (fst (loop_pass
       ((init_ai 3 3)\<lparr>knowledge := [\<lparr>cells = {(1, 1), (1, 2), (2, 1)}, count = 1\<rparr>,
                                        \<lparr>cells = {(1, 1), (1, 2)}, count = 1\<rparr>]\<rparr>))))"
proof -
  let ?A = "\<lparr>cells = {(1, 1), (1, 2), (2, 1)}, count = 1\<rparr> :: sentence"
  let ?B = "\<lparr>cells = {(1, 1), (1, 2)}, count = 1\<rparr> :: sentence"
  let ?st = "(init_ai 3 3)\<lparr>knowledge := [?A, ?B]\<rparr>"
  have h: "?A \<in> set (knowledge (fst (certain_pass ?st))) \<and> ?B \<in> set (knowledge (fst (certain_pass ?st)))
      \<and> ?A \<noteq> ?B \<and> cells ?B \<subseteq> cells ?A"
    by code_simp
  from subset_resolution [of ?A ?st ?B] h show ?thesis by blast
qed

section \<open>The first observation on a 3 by 3 board\<close>

text \<open>
  Claim C1, as the code has it.  On a fresh engine for a 3 by 3 board,
  \<^verbatim>\<open>add_knowledge((0,0), 0)\<close> returns with the known safes \<open>(0,0)\<close> and its three
  neighbours \<open>(0,1)\<close>, \<open>(1,0)\<close>, \<open>(1,1)\<close>: the engine is told about \<open>(0,0)\<close> only and
  never asks the board for the counts of other cells.  A following \<^verbatim>\<open>make_safe_move\<close>
  returns one of these three neighbours, whatever the iteration order of the set.
\<close>

theorem first_observation:
  "add_knowledge (0, 0) 0 (init_ai 3 3) =
     Some \<lparr>height = 3, width = 3, moves_made = {(0, 0)}, mines = {},
            safes = {(0, 0), (0, 1), (1, 0), (1, 1)}, knowledge = [\<lparr>cells = {}, count = 0\<rparr>]\<rparr>
   \<and> (set order = {(0, 0), (0, 1), (1, 0), (1, 1)} \<longrightarrow>
        fst (make_safe_move order
          \<lparr>height = 3, width = 3, moves_made = {(0, 0)}, mines = {},
            safes = {(0, 0), (0, 1), (1, 0), (1, 1)}, knowledge = [\<lparr>cells = {}, count = 0\<rparr>]\<rparr>)
        \<in> {Some (0, 1), Some (1, 0), Some (1, 1)})"
proof (intro conjI impI)
  show "add_knowledge (0, 0) 0 (init_ai 3 3) =
     Some \<lparr>height = 3, width = 3, moves_made = {(0, 0)}, mines = {},
            safes = {(0, 0), (0, 1), (1, 0), (1, 1)}, knowledge = [\<lparr>cells = {}, count = 0\<rparr>]\<rparr>"
    by code_simp
next
  assume o: "set order = {(0, 0), (0, 1), (1, 0), (1, 1)}"
  have "\<And>xs. set xs \<subseteq> {(0, 0), (0, 1), (1, 0), (1, 1)} \<Longrightarrow> (\<exists>x\<in>set xs. x \<noteq> (0, 0)) \<Longrightarrow>
      find (\<lambda>i. i \<noteq> (0, 0)) xs \<in> {Some (0, 1), Some (1, 0), Some (1, 1 :: int)}"
    subgoal for xs by (induction xs) auto
    done
  from this [of order] o
  show "fst (make_safe_move order
          \<lparr>height = 3, width = 3, moves_made = {(0, 0)}, mines = {},
            safes = {(0, 0), (0, 1), (1, 0), (1, 1)}, knowledge = [\<lparr>cells = {}, count = 0\<rparr>]\<rparr>)
        \<in> {Some (0, 1), Some (1, 0), Some (1, 1)}"
    by (simp add: make_safe_move_def)
qed

theorem first_observation_witness:
  "set [(0, 0), (0, 1), (1, 0), (1, 1)] = {(0, 0), (0, 1), (1, 0), (1, 1 :: int)}
   \<and> fst (make_safe_move [(0, 0), (0, 1), (1, 0), (1, 1)]
          \<lparr>height = 3, width = 3, moves_made = {(0, 0)}, mines = {},
            safes = {(0, 0), (0, 1), (1, 0), (1, 1)}, knowledge = [\<lparr>cells = {}, count = 0\<rparr>]\<rparr>)
        \<in> {Some (0, 1), Some (1, 0), Some (1, 1)}"
  using first_observation [of "[(0, 0), (0, 1), (1, 0), (1, 1)]"] by simp

text \<open>
  The claim as stated fails: after that one call, the cells \<open>(0,2)\<close>, \<open>(1,2)\<close>, \<open>(2,0)\<close>
  and \<open>(2,1)\<close> are not known safe.
\<close>

theorem first_observation_not_all:
  "add_knowledge (0, 0) 0 (init_ai 3 3) =
     Some \<lparr>height = 3, width = 3, moves_made = {(0, 0)}, mines = {},
            safes = {(0, 0), (0, 1), (1, 0), (1, 1)}, knowledge = [\<lparr>cells = {}, count = 0\<rparr>]\<rparr>
   \<and> \<not> {(0, 1), (0, 2), (1, 0), (1, 1), (1, 2), (2, 0), (2, 1)}
        \<subseteq> safes \<lparr>height = 3, width = 3, moves_made = {(0, 0)}, mines = {},
            safes = {(0, 0), (0, 1), (1, 0), (1, 1)}, knowledge = [\<lparr>cells = {}, count = 0\<rparr>]\<rparr>"
  by code_simp

section \<open>Equal sentences in the knowledge base\<close>

text \<open>
  Two observations of a game on a 3 by 3 board with its mine at \<open>(2,2)\<close> leave two equal
  sentences in the knowledge base: both are narrowed to \<open>{} = 0\<close>.
\<close>

theorem equal_sentences_after_observations:
  "valid_observation 3 3 {(2, 2)} ((0, 0), 0) \<and> valid_observation 3 3 {(2, 2)} ((0, 1), 0)
   \<and> observe_all [((0, 0), 0), ((0, 1), 0)] (init_ai 3 3) =
     Some \<lparr>height = 3, width = 3, moves_made = {(0, 0), (0, 1)}, mines = {},
            safes = {(0, 0), (0, 1), (0, 2), (1, 0), (1, 1), (1, 2)},
            knowledge = [\<lparr>cells = {}, count = 0\<rparr>, \<lparr>cells = {}, count = 0\<rparr>]\<rparr>
   \<and> \<not> distinct [\<lparr>cells = {}, count = 0\<rparr> :: sentence, \<lparr>cells = {}, count = 0\<rparr>]"
  by code_simp

text \<open>
  Claim C4, as the code has it.  The sentences a pass appends are those of
  \<open>newly_inferred\<close>, and none of them equals a sentence the knowledge base held when the
  resolution started.
\<close>

theorem appended_only_if_absent:
  "set (newly_inferred K) \<inter> set K = {}
   \<and> knowledge (fst (loop_pass st)) =
       knowledge (fst (certain_pass st)) @ newly_inferred (knowledge (fst (certain_pass st)))"
  using knowledge_loop_pass [of st] by (auto simp: newly_inferred_iff)

section \<open>What the operations keep\<close>

lemma sentence_mark_safe_eq: "sentence_mark_safe c s = s\<lparr>cells := cells s - {c}\<rparr>"
  by (simp add: sentence_mark_safe_def)

lemma sentence_mark_mine_eq:
  "sentence_mark_mine c s =
   \<lparr>cells = cells s - {c}, count = count s - (if c \<in> cells s then 1 else 0)\<rparr>"
  by (simp add: sentence_mark_mine_def)

lemma fold_mark_safe:
  "fold mark_safe xs st =
   st\<lparr>safes := safes st \<union> set xs,
       knowledge := map (\<lambda>s. s\<lparr>cells := cells s - set xs\<rparr>) (knowledge st)\<rparr>"
proof (induction xs arbitrary: st)
  case Nil
  show ?case by simp
next
  case (Cons x xs)
  have c: "A - {x} - set xs = A - insert x (set xs)" for A :: "cell set"
    by blast
  have "fold mark_safe (x # xs) st = fold mark_safe xs (mark_safe x st)"
    by simp
  also have "\<dots> = (mark_safe x st)\<lparr>safes := safes (mark_safe x st) \<union> set xs,
       knowledge := map (\<lambda>s. s\<lparr>cells := cells s - set xs\<rparr>) (knowledge (mark_safe x st))\<rparr>"
    by (rule Cons.IH)
  also have "\<dots> = st\<lparr>safes := safes st \<union> set (x # xs),
       knowledge := map (\<lambda>s. s\<lparr>cells := cells s - set (x # xs)\<rparr>) (knowledge st)\<rparr>"
    by (simp add: mark_safe_def sentence_mark_safe_eq comp_def c)
  finally show ?case .
qed

lemma card_Int_insert:
  assumes "finite X"
  shows "int (card (A \<inter> insert x X)) = (if x \<in> A then 1 else 0) + int (card ((A - {x}) \<inter> X))"
proof (cases "x \<in> A")
  case True
  have "A \<inter> insert x X = insert x ((A - {x}) \<inter> X)" using True by blast
  moreover have "x \<notin> (A - {x}) \<inter> X" by blast
  moreover have "finite ((A - {x}) \<inter> X)" using assms by blast
  ultimately show ?thesis using True by simp
next
  case False
  then have "A \<inter> insert x X = (A - {x}) \<inter> X" by blast
  with False show ?thesis by simp
qed

lemma fold_mark_mine:
  "fold mark_mine xs st =
   st\<lparr>mines := mines st \<union> set xs,
       knowledge := map (\<lambda>s. s\<lparr>cells := cells s - set xs,
                                 count := count s - int (card (cells s \<inter> set xs))\<rparr>) (knowledge st)\<rparr>"
proof (induction xs arbitrary: st)
  case Nil
  show ?case by simp
next
  case (Cons x xs)
  have c: "A - {x} - set xs = A - insert x (set xs)" for A :: "cell set"
    by blast
  have "fold mark_mine (x # xs) st = fold mark_mine xs (mark_mine x st)"
    by simp
  also have "\<dots> = (mark_mine x st)\<lparr>mines := mines (mark_mine x st) \<union> set xs,
       knowledge := map (\<lambda>s. s\<lparr>cells := cells s - set xs,
                                 count := count s - int (card (cells s \<inter> set xs))\<rparr>)
                      (knowledge (mark_mine x st))\<rparr>"
    by (rule Cons.IH)
  also have "\<dots> = st\<lparr>mines := mines st \<union> set (x # xs),
       knowledge := map (\<lambda>s. s\<lparr>cells := cells s - set (x # xs),
                                 count := count s - int (card (cells s \<inter> set (x # xs)))\<rparr>)
                      (knowledge st)\<rparr>"
    by (simp add: mark_mine_def sentence_mark_mine_eq comp_def c card_Int_insert)
  finally show ?case .
qed

text \<open>
  Marking the cells of a set one by one gives the same engine in whatever order the set
  is walked.
\<close>

lemma mark_safe_order: "set xs = set ys \<Longrightarrow> fold mark_safe xs st = fold mark_safe ys st"
  by (simp add: fold_mark_safe)

lemma mark_mine_order: "set xs = set ys \<Longrightarrow> fold mark_mine xs st = fold mark_mine ys st"
  by (simp add: fold_mark_mine)

lemma grows_refl: "grows st st"
  by (simp add: grows_def)

lemma grows_trans: "grows a b \<Longrightarrow> grows b c \<Longrightarrow> grows a c"
  by (auto simp: grows_def)

lemma grows_certain_at: "grows (fst acc) (fst (certain_at i acc))"
  by (auto simp: certain_at_def Let_def fold_mark_safe fold_mark_mine grows_def
      split: prod.splits if_splits)

lemma grows_fold_certain_at: "grows (fst acc) (fst (fold certain_at is acc))"
proof (induction "is" arbitrary: acc)
  case Nil
  show ?case by (simp add: grows_refl)
next
  case (Cons i "is")
  from grows_certain_at [of acc i] Cons [of "certain_at i acc"] show ?case
    by (auto intro: grows_trans)
qed

lemma grows_certain_pass: "grows st (fst (certain_pass st))"
  using grows_fold_certain_at [of "(st, False)"] by (simp add: certain_pass_def)

lemma grows_loop_pass: "grows st (fst (loop_pass st))"
  using grows_certain_pass [of st]
  by (auto simp: loop_pass_def Let_def grows_def split: prod.splits)

lemma grows_deduce:
  assumes "deduce st = Some st'"
  shows "grows st st'"
proof (rule deduce.raw_induct [OF _ assms])
  fix d st st'
  assume IH: "\<And>x y. d x = Some y \<Longrightarrow> grows x y"
    and eq: "(case loop_pass st of (st1, found) \<Rightarrow> if found then d st1 else Some st1) = Some st'"
  obtain st1 found where p: "loop_pass st = (st1, found)" by (cases "loop_pass st")
  have g: "grows st st1" using grows_loop_pass [of st] p by simp
  show "grows st st'"
  proof (cases found)
    case True
    with eq p have "grows st1 st'" by (simp add: IH)
    with g show ?thesis by (rule grows_trans)
  next
    case False
    with eq p g show ?thesis by simp
  qed
qed

lemma observed_fields:
  "moves_made (observed c n st) = insert c (moves_made st)"
  "safes (observed c n st) = insert c (safes st)"
  "mines (observed c n st) = mines st"
  "height (observed c n st) = height st"
  "width (observed c n st) = width st"
  by (simp_all add: observed_def mark_safe_def Let_def)

text \<open>
  Claim C10.  In every state an engine reaches from its creation by calls of
  \<^verbatim>\<open>add_knowledge\<close> (that return), \<^verbatim>\<open>mark_mine\<close>, \<^verbatim>\<open>mark_safe\<close>, \<^verbatim>\<open>make_safe_move\<close> and
  \<^verbatim>\<open>make_random_move\<close>, every move made is a known safe cell.
\<close>
theorem moves_made_known_safe: "reachable h w st \<Longrightarrow> moves_made st \<subseteq> safes st"
proof (induction rule: reachable.induct)
  case fresh
  show ?case by (simp add: init_ai_def)
next
  case (by_add_knowledge st c n st')
  from by_add_knowledge.hyps(2) have "grows (observed c n st) st'"
    unfolding add_knowledge_def by (rule grows_deduce)
  with by_add_knowledge.IH show ?case
    by (auto simp: grows_def observed_fields)
next
  case (by_mark_mine st c)
  then show ?case by (simp add: mark_mine_def)
next
  case (by_mark_safe st c)
  then show ?case by (auto simp: mark_safe_def)
next
  case (by_make_safe_move st order)
  then show ?case by (simp add: make_safe_move_def)
next
  case (by_make_random_move st k)
  then show ?case by (simp add: make_random_move_def)
qed

theorem moves_made_known_safe_witness:
  "reachable 3 3 \<lparr>height = 3, width = 3, moves_made = {(0, 0)}, mines = {},
            safes = {(0, 0), (0, 1), (1, 0), (1, 1)}, knowledge = [\<lparr>cells = {}, count = 0\<rparr>]\<rparr>
   \<and> moves_made \<lparr>height = 3, width = 3, moves_made = {(0, 0)}, mines = {},
            safes = {(0, 0), (0, 1), (1, 0), (1, 1)}, knowledge = [\<lparr>cells = {}, count = 0\<rparr>]\<rparr>
      \<subseteq> safes \<lparr>height = 3, width = 3, moves_made = {(0, 0)}, mines = {},
            safes = {(0, 0), (0, 1), (1, 0), (1, 1)}, knowledge = [\<lparr>cells = {}, count = 0\<rparr>]\<rparr>"
proof -
  have a: "add_knowledge (0, 0) 0 (init_ai 3 3) =
     Some \<lparr>height = 3, width = 3, moves_made = {(0, 0)}, mines = {},
            safes = {(0, 0), (0, 1), (1, 0), (1, 1)}, knowledge = [\<lparr>cells = {}, count = 0\<rparr>]\<rparr>"
    by code_simp
  have r: "reachable 3 3 \<lparr>height = 3, width = 3, moves_made = {(0, 0)}, mines = {},
            safes = {(0, 0), (0, 1), (1, 0), (1, 1)}, knowledge = [\<lparr>cells = {}, count = 0\<rparr>]\<rparr>"
    by (rule by_add_knowledge [OF fresh a])
  from r moves_made_known_safe [OF r] show ?thesis by (intro conjI)
qed

section \<open>Knowledge that is true of a mine placement\<close>

lemma finite_board: "finite (board st)"
  by (simp add: board_def)

lemma sound_sentence:
  "sound M st \<Longrightarrow> s \<in> set (knowledge st) \<Longrightarrow>
   finite (cells s) \<and> cells s \<subseteq> board st \<and> count s = int (card (cells s \<inter> M))"
  using finite_subset [OF _ finite_board] by (auto simp: sound_def)

lemma zero_count_no_mines:
  assumes "finite C" and "int (card (C \<inter> M)) = 0"
  shows "C \<inter> M = {}"
  using assms by simp

lemma full_count_all_mines:
  assumes "finite C" and "int (card (C \<inter> M)) = int (card C)"
  shows "C \<subseteq> M"
proof -
  have "C \<inter> M = C" using assms by (intro card_subset_eq) auto
  then show ?thesis by blast
qed

lemma sound_all_safe:
  assumes "sound M st" and "C \<inter> M = {}"
  shows "sound M (st\<lparr>safes := safes st \<union> C,
           knowledge := map (\<lambda>t. t\<lparr>cells := cells t - C\<rparr>) (knowledge st)\<rparr>)"
proof -
  have "(A - C) \<inter> M = A \<inter> M" for A using assms(2) by blast
  with assms show ?thesis
    by (auto simp: sound_def board_def)
qed

lemma card_Diff_Int:
  assumes "finite A" and "C \<subseteq> M"
  shows "int (card ((A - C) \<inter> M)) = int (card (A \<inter> M)) - int (card (A \<inter> C))"
proof -
  have e: "(A - C) \<inter> M = (A \<inter> M) - (A \<inter> C)" using assms(2) by blast
  have s: "A \<inter> C \<subseteq> A \<inter> M" using assms(2) by blast
  have f: "finite (A \<inter> C)" using assms(1) by simp
  have "card ((A \<inter> M) - (A \<inter> C)) = card (A \<inter> M) - card (A \<inter> C)"
    using f s by (rule card_Diff_subset)
  moreover have "card (A \<inter> C) \<le> card (A \<inter> M)"
    using assms(1) s by (intro card_mono) auto
  ultimately show ?thesis using e by simp
qed

lemma sound_all_mines:
  assumes "sound M st" and "C \<subseteq> M"
  shows "sound M (st\<lparr>mines := mines st \<union> C,
           knowledge := map (\<lambda>t. t\<lparr>cells := cells t - C,
                                     count := count t - int (card (cells t \<inter> C))\<rparr>) (knowledge st)\<rparr>)"
proof -
  have "int (card ((cells t - C) \<inter> M)) = count t - int (card (cells t \<inter> C))"
    if "t \<in> set (knowledge st)" for t
    using sound_sentence [OF assms(1) that] card_Diff_Int [OF _ assms(2), of "cells t"] by simp
  with assms show ?thesis
    by (auto simp: sound_def board_def)
qed

lemma mentioned_all_safe:
  "mentioned (st\<lparr>safes := safes st \<union> C,
           knowledge := map (\<lambda>t. t\<lparr>cells := cells t - C\<rparr>) (knowledge st)\<rparr>) = mentioned st - C"
  by (simp add: mentioned_def image_image)

lemma mentioned_all_mines:
  "mentioned (st\<lparr>mines := mines st \<union> C,
           knowledge := map (\<lambda>t. t\<lparr>cells := cells t - C,
                                     count := count t - int (card (cells t \<inter> C))\<rparr>) (knowledge st)\<rparr>)
   = mentioned st - C"
  by (simp add: mentioned_def image_image)

lemma Diff_psubset: "A = B - C \<Longrightarrow> C \<subseteq> B \<Longrightarrow> C \<noteq> {} \<Longrightarrow> A \<subset> B"
  by auto

lemma truthy_known_safes: "truthy (known_safes s) \<longleftrightarrow> count s = 0 \<and> cells s \<noteq> {}"
  by (simp add: truthy_def known_safes_def)

lemma truthy_known_mines:
  "truthy (known_mines s) \<longleftrightarrow> count s = int (card (cells s)) \<and> cells s \<noteq> {}"
  by (simp add: truthy_def known_mines_def)

lemma mentioned_member: "s \<in> set (knowledge st) \<Longrightarrow> cells s \<subseteq> mentioned st"
  by (auto simp: mentioned_def)

lemma certain_at_sound:
  assumes snd: "sound M st" and i: "i < length (knowledge st)"
  shows "sound M (fst (certain_at i (st, f)))
    \<and> length (knowledge (fst (certain_at i (st, f)))) = length (knowledge st)
    \<and> (certain_at i (st, f) = (st, f)
        \<or> snd (certain_at i (st, f)) \<and> mentioned (fst (certain_at i (st, f))) \<subset> mentioned st)"
proof -
  let ?s = "knowledge st ! i"
  let ?C = "cells ?s"
  have mem: "?s \<in> set (knowledge st)" using i by simp
  from sound_sentence [OF snd mem]
  have fin: "finite ?C" and cnt: "count ?s = int (card (?C \<inter> M))" by simp_all
  have xs: "set (sorted_list_of_set ?C) = ?C" using fin by simp
  have sub: "?C \<subseteq> mentioned st" using mem by (rule mentioned_member)
  consider (safe) "truthy (known_safes ?s)"
    | (mine) "\<not> truthy (known_safes ?s)" "truthy (known_mines ?s)"
    | (none) "\<not> truthy (known_safes ?s)" "\<not> truthy (known_mines ?s)"
    by blast
  then show ?thesis
  proof cases
    case safe
    then have zero: "count ?s = 0" and ne: "?C \<noteq> {}"
      by (simp_all add: truthy_known_safes)
    let ?st1 = "st\<lparr>safes := safes st \<union> ?C,
           knowledge := map (\<lambda>t. t\<lparr>cells := cells t - ?C\<rparr>) (knowledge st)\<rparr>"
    have f1: "fold mark_safe (sorted_list_of_set ?C) st = ?st1"
      by (simp add: fold_mark_safe xs)
    have "cells (knowledge ?st1 ! i) = {}" using i by simp
    then have nm: "\<not> truthy (known_mines (knowledge ?st1 ! i))"
      by (simp add: truthy_known_mines)
    have r: "certain_at i (st, f) = (?st1, True)"
      using safe nm by (simp add: certain_at_def f1)
    have "int (card (?C \<inter> M)) = 0"
      using cnt [symmetric] zero by (rule trans)
    with fin have "?C \<inter> M = {}" by (rule zero_count_no_mines)
    then have s1: "sound M ?st1" by (rule sound_all_safe [OF snd])
    have "mentioned ?st1 = mentioned st - ?C" by (rule mentioned_all_safe)
    then have "mentioned ?st1 \<subset> mentioned st" using sub ne by (rule Diff_psubset)
    with r s1 show ?thesis by simp
  next
    case mine
    then have full: "count ?s = int (card ?C)" and ne: "?C \<noteq> {}"
      by (simp_all add: truthy_known_mines)
    let ?st2 = "st\<lparr>mines := mines st \<union> ?C,
           knowledge := map (\<lambda>t. t\<lparr>cells := cells t - ?C,
                                     count := count t - int (card (cells t \<inter> ?C))\<rparr>) (knowledge st)\<rparr>"
    have f2: "fold mark_mine (sorted_list_of_set ?C) st = ?st2"
      by (simp add: fold_mark_mine xs)
    have r: "certain_at i (st, f) = (?st2, True)"
      using mine by (simp add: certain_at_def f2)
    have "int (card (?C \<inter> M)) = int (card ?C)"
      using cnt [symmetric] full by (rule trans)
    with fin have "?C \<subseteq> M" by (rule full_count_all_mines)
    then have s2: "sound M ?st2" by (rule sound_all_mines [OF snd])
    have "mentioned ?st2 = mentioned st - ?C" by (rule mentioned_all_mines)
    then have "mentioned ?st2 \<subset> mentioned st" using sub ne by (rule Diff_psubset)
    with r s2 show ?thesis by simp
  next
    case none
    then have "certain_at i (st, f) = (st, f)"
      by (simp add: certain_at_def)
    with snd show ?thesis by simp
  qed
qed

lemma fold_certain_at_sound:
  assumes "sound M st" and "\<forall>i\<in>set is. i < length (knowledge st)"
  shows "sound M (fst (fold certain_at is (st, f)))
    \<and> (fold certain_at is (st, f) = (st, f)
        \<or> snd (fold certain_at is (st, f)) \<and> mentioned (fst (fold certain_at is (st, f))) \<subset> mentioned st)"
  using assms
proof (induction "is" arbitrary: st f)
  case Nil
  then show ?case by simp
next
  case (Cons i "is")
  obtain st1 f1 where c: "certain_at i (st, f) = (st1, f1)" by (cases "certain_at i (st, f)")
  from Cons.prems have i: "i < length (knowledge st)" by simp
  from certain_at_sound [OF Cons.prems(1) i, of f] c
  have s1: "sound M st1" and l1: "length (knowledge st1) = length (knowledge st)"
    and d1: "(st1, f1) = (st, f) \<or> f1 \<and> mentioned st1 \<subset> mentioned st"
    by simp_all
  from Cons.prems l1 have "\<forall>i\<in>set is. i < length (knowledge st1)" by simp
  from Cons.IH [OF s1 this, of f1]
  have s2: "sound M (fst (fold certain_at is (st1, f1)))"
    and d2: "fold certain_at is (st1, f1) = (st1, f1)
        \<or> snd (fold certain_at is (st1, f1)) \<and> mentioned (fst (fold certain_at is (st1, f1))) \<subset> mentioned st1"
    by simp_all
  have e: "fold certain_at (i # is) (st, f) = fold certain_at is (st1, f1)" using c by simp
  from d1 d2 have "fold certain_at is (st1, f1) = (st, f)
        \<or> snd (fold certain_at is (st1, f1)) \<and> mentioned (fst (fold certain_at is (st1, f1))) \<subset> mentioned st"
    by auto
  with s2 show ?case unfolding e by simp
qed

lemma certain_pass_sound:
  assumes "sound M st"
  shows "sound M (fst (certain_pass st))
    \<and> (certain_pass st = (st, False)
        \<or> snd (certain_pass st) \<and> mentioned (fst (certain_pass st)) \<subset> mentioned st)"
  unfolding certain_pass_def
  by (rule fold_certain_at_sound [OF assms]) simp

section \<open>A pass that finds something lowers the engine\<close>

lemma card_Diff_Int_subset:
  assumes "finite A" and "B \<subseteq> A"
  shows "int (card ((A - B) \<inter> M)) = int (card (A \<inter> M)) - int (card (B \<inter> M))"
proof -
  have e: "(A - B) \<inter> M = (A \<inter> M) - (B \<inter> M)" by blast
  have s: "B \<inter> M \<subseteq> A \<inter> M" using assms(2) by blast
  have f: "finite (B \<inter> M)" using assms finite_subset by blast
  have "card ((A \<inter> M) - (B \<inter> M)) = card (A \<inter> M) - card (B \<inter> M)"
    using f s by (rule card_Diff_subset)
  moreover have "card (B \<inter> M) \<le> card (A \<inter> M)"
    using assms(1) s by (intro card_mono) auto
  ultimately show ?thesis using e by simp
qed

lemma newly_inferred_sound:
  assumes snd: "sound M st" and n: "n \<in> set (newly_inferred (knowledge st))"
  shows "cells n \<subseteq> board st" and "count n = int (card (cells n \<inter> M))"
    and "cells n \<subseteq> mentioned st" and "cells n \<notin> cells ` set (knowledge st)"
proof -
  from n obtain s1 s2 where s1: "s1 \<in> set (knowledge st)" and s2: "s2 \<in> set (knowledge st)"
    and sub: "cells s2 \<subseteq> cells s1" and d: "n = derive s1 s2" and new: "n \<notin> set (knowledge st)"
    unfolding newly_inferred_iff by blast
  note a1 = sound_sentence [OF snd s1] and a2 = sound_sentence [OF snd s2]
  have c: "cells n = cells s1 - cells s2" and k: "count n = count s1 - count s2"
    by (simp_all add: d derive_def)
  show "cells n \<subseteq> board st" using a1 c by blast
  show cn: "count n = int (card (cells n \<inter> M))"
    using card_Diff_Int_subset [of "cells s1" "cells s2" M] a1 a2 sub by (simp add: c k)
  show "cells n \<subseteq> mentioned st" using mentioned_member [OF s1] c by blast
  show "cells n \<notin> cells ` set (knowledge st)"
  proof
    assume "cells n \<in> cells ` set (knowledge st)"
    then obtain t where t: "t \<in> set (knowledge st)" and e: "cells t = cells n" by auto
    from sound_sentence [OF snd t] cn e have "count t = count n" by simp
    with e have "t = n" by simp
    with t new show False by simp
  qed
qed

lemma board_grows: "grows st st' \<Longrightarrow> board st' = board st"
  by (simp add: grows_def board_def)

lemma mentioned_board: "sound M st \<Longrightarrow> mentioned st \<subseteq> board st"
  by (auto simp: sound_def mentioned_def)

lemma in_pass_order:
  "(st', st) \<in> pass_order \<longleftrightarrow>
   card (mentioned st') < card (mentioned st) \<or>
   card (mentioned st') = card (mentioned st) \<and>
   card (Pow (board st') - cells ` set (knowledge st')) < card (Pow (board st) - cells ` set (knowledge st))"
  by (simp add: pass_order_def)

lemma wf_pass_order: "wf pass_order"
  unfolding pass_order_def by (intro wf_inv_image wf_lex_prod wf_less_than)

lemma appended_sound:
  assumes "sound M st" and "\<forall>n\<in>set new. cells n \<subseteq> board st \<and> count n = int (card (cells n \<inter> M))"
  shows "sound M (st\<lparr>knowledge := knowledge st @ new\<rparr>)"
  using assms by (auto simp: sound_def board_def)

lemma appended_mentioned:
  assumes "\<forall>n\<in>set new. cells n \<subseteq> mentioned st"
  shows "mentioned (st\<lparr>knowledge := knowledge st @ new\<rparr>) = mentioned st"
  using assms by (auto simp: mentioned_def)

lemma loop_pass_sound:
  assumes snd: "sound M st"
  shows "sound M (fst (loop_pass st))"
    and "snd (loop_pass st) \<Longrightarrow> (fst (loop_pass st), st) \<in> pass_order"
proof -
  obtain st1 f where cp: "certain_pass st = (st1, f)" by (cases "certain_pass st")
  let ?new = "newly_inferred (knowledge st1)"
  let ?st2 = "st1\<lparr>knowledge := knowledge st1 @ ?new\<rparr>"
  from certain_pass_sound [OF snd] cp
  have s1: "sound M st1"
    and d1: "(st1, f) = (st, False) \<or> f \<and> mentioned st1 \<subset> mentioned st"
    by simp_all
  have b1: "board st1 = board st"
    using grows_certain_pass [of st] cp by (simp add: board_grows)
  have fin: "finite (mentioned st)"
    using mentioned_board [OF snd] finite_board by (rule finite_subset)
  have lp: "loop_pass st = (if ?new \<noteq> [] then (?st2, True) else (st1, f))"
    by (simp add: loop_pass_def cp Let_def)
  have new_ok: "\<forall>n\<in>set ?new. cells n \<subseteq> board st1 \<and> count n = int (card (cells n \<inter> M))"
    using newly_inferred_sound(1,2) [OF s1] by blast
  have s2: "sound M ?st2" using s1 new_ok by (rule appended_sound)
  have m2: "mentioned ?st2 = mentioned st1"
    using newly_inferred_sound(3) [OF s1] by (intro appended_mentioned) blast
  show "sound M (fst (loop_pass st))" using s1 s2 by (simp add: lp)
  show "(fst (loop_pass st), st) \<in> pass_order" if found: "snd (loop_pass st)"
  proof (cases "f \<and> mentioned st1 \<subset> mentioned st")
    case True
    then have "card (mentioned st1) < card (mentioned st)"
      using fin by (simp add: psubset_card_mono)
    then show ?thesis by (simp add: lp in_pass_order m2)
  next
    case False
    with d1 have e: "st1 = st" and nf: "\<not> f" by simp_all
    from found nf have ne: "?new \<noteq> []" by (simp add: lp split: if_splits)
    then obtain n where n: "n \<in> set ?new" by (cases ?new) auto
    let ?V = "cells ` set (knowledge st1)"
    let ?V2 = "cells ` set (knowledge ?st2)"
    have "cells n \<in> Pow (board st1) - ?V"
      using newly_inferred_sound(1,4) [OF s1 n] by blast
    moreover have "cells n \<notin> Pow (board st1) - ?V2" using n by simp
    moreover have "Pow (board st1) - ?V2 \<subseteq> Pow (board st1) - ?V" by auto
    ultimately have "Pow (board st1) - ?V2 \<subset> Pow (board st1) - ?V" by blast
    moreover have "finite (Pow (board st1) - ?V)" using finite_board by simp
    ultimately have "card (Pow (board st1) - ?V2) < card (Pow (board st1) - ?V)"
      by (rule psubset_card_mono [rotated])
    moreover have "board ?st2 = board st1" by (simp add: board_def)
    ultimately show ?thesis using ne m2 e by (simp add: lp in_pass_order)
  qed
qed

lemma deduce_quiet:
  assumes "\<not> snd (loop_pass st)"
  shows "deduce st = Some (fst (loop_pass st))"
proof -
  obtain st1 f where p: "loop_pass st = (st1, f)" by (cases "loop_pass st")
  with assms have f: "\<not> f" by simp
  show ?thesis by (subst deduce.simps) (simp add: p f)
qed

lemma deduce_again:
  assumes "snd (loop_pass st)"
  shows "deduce st = deduce (fst (loop_pass st))"
proof -
  obtain st1 f where p: "loop_pass st = (st1, f)" by (cases "loop_pass st")
  with assms have f: "f" by simp
  show ?thesis by (subst deduce.simps) (simp add: p f)
qed

lemma deduce_returns:
  assumes "sound M st"
  shows "\<exists>k. (\<forall>j<k. snd (loop_pass (passes j st))) \<and> \<not> snd (loop_pass (passes k st))
           \<and> deduce st = Some (fst (loop_pass (passes k st)))
           \<and> sound M (fst (loop_pass (passes k st)))"
  using assms
proof (induction st rule: wf_induct_rule [OF wf_pass_order])
  case (1 st)
  let ?st1 = "fst (loop_pass st)"
  show ?case
  proof (cases "snd (loop_pass st)")
    case False
    then have "(\<forall>j<0::nat. snd (loop_pass (passes j st))) \<and> \<not> snd (loop_pass (passes 0 st))
           \<and> deduce st = Some (fst (loop_pass (passes 0 st)))
           \<and> sound M (fst (loop_pass (passes 0 st)))"
      using loop_pass_sound(1) [OF "1.prems"] by (simp add: deduce_quiet)
    then show ?thesis by (rule exI)
  next
    case True
    from loop_pass_sound [OF "1.prems"] True
    have s1: "sound M ?st1" and lt: "(?st1, st) \<in> pass_order" by simp_all
    from "1.IH" [OF lt s1] obtain k where
      k: "\<forall>j<k. snd (loop_pass (passes j ?st1))" "\<not> snd (loop_pass (passes k ?st1))"
        "deduce ?st1 = Some (fst (loop_pass (passes k ?st1)))"
        "sound M (fst (loop_pass (passes k ?st1)))"
      by blast
    have "\<forall>j<Suc k. snd (loop_pass (passes j st))"
    proof (intro allI impI)
      fix j assume "j < Suc k"
      then show "snd (loop_pass (passes j st))"
        using True k(1) by (cases j) simp_all
    qed
    moreover have "deduce st = Some (fst (loop_pass (passes (Suc k) st)))"
      using k(3) True by (simp add: deduce_again)
    ultimately have "(\<forall>j<Suc k. snd (loop_pass (passes j st))) \<and> \<not> snd (loop_pass (passes (Suc k) st))
           \<and> deduce st = Some (fst (loop_pass (passes (Suc k) st)))
           \<and> sound M (fst (loop_pass (passes (Suc k) st)))"
      using k(2,4) by simp
    then show ?thesis by (rule exI)
  qed
qed

section \<open>Observations of a game\<close>

lemma fold_count:
  "fold (\<lambda>j cnt. if Q j then cnt + 1 else cnt) js (cnt :: int) = cnt + int (length (filter Q js))"
  by (induction js arbitrary: cnt) simp_all

lemma fold_count_rows:
  "fold (\<lambda>i cnt. fold (\<lambda>j cnt. if Q (i, j) then cnt + 1 else cnt) js cnt) is (cnt :: int)
   = cnt + int (length (filter Q (List.product is js)))"
proof (induction "is" arbitrary: cnt)
  case Nil
  show ?case by simp
next
  case (Cons i "is")
  let ?F = "\<lambda>i cnt. fold (\<lambda>j cnt. if Q (i, j) then cnt + 1 else cnt) js (cnt :: int)"
  let ?n = "int (length (filter (\<lambda>j. Q (i, j)) js))"
  have "fold ?F (i # is) cnt = fold ?F is (?F i cnt)" by simp
  also have "?F i cnt = cnt + ?n" by (rule fold_count)
  also have "fold ?F is (cnt + ?n) = cnt + ?n + int (length (filter Q (List.product is js)))"
    by (rule Cons.IH)
  also have "\<dots> = cnt + int (length (filter Q (List.product (i # is) js)))"
    by (simp add: filter_map comp_def)
  finally show ?case .
qed

lemma nearby_mines_filter:
  "nearby_mines h w M c =
   int (length (filter (\<lambda>p. p \<noteq> c \<and> 0 \<le> fst p \<and> fst p < h \<and> 0 \<le> snd p \<and> snd p < w \<and> p \<in> M)
     (List.product [fst c - 1 .. fst c + 1] [snd c - 1 .. snd c + 1])))"
proof -
  let ?Q = "\<lambda>p. p \<noteq> c \<and> 0 \<le> fst p \<and> fst p < h \<and> 0 \<le> snd p \<and> snd p < w \<and> p \<in> M"
  have "nearby_mines h w M c =
    fold (\<lambda>i cnt. fold (\<lambda>j cnt. if ?Q (i, j) then cnt + 1 else cnt) [snd c - 1 .. snd c + 1] cnt)
      [fst c - 1 .. fst c + 1] 0"
    unfolding nearby_mines_def
    by (intro arg_cong [where f = "\<lambda>f. fold f [fst c - 1 .. fst c + 1] 0"]
        arg_cong [where f = "\<lambda>f. fold f [snd c - 1 .. snd c + 1] _"] ext) auto
  then show ?thesis
    using fold_count_rows [of ?Q "[snd c - 1 .. snd c + 1]" "[fst c - 1 .. fst c + 1]" 0] by simp
qed

lemma neighbors_filter:
  "neighbors st c =
   set (filter (\<lambda>p. 0 \<le> fst p \<and> fst p < height st \<and> 0 \<le> snd p \<and> snd p < width st \<and> p \<noteq> c)
     (List.product [fst c - 1 .. fst c + 1] [snd c - 1 .. snd c + 1]))"
  unfolding neighbors_def
  using concat_rows_filter [of "\<lambda>p. 0 \<le> fst p \<and> fst p < height st \<and> 0 \<le> snd p \<and> snd p < width st \<and> p \<noteq> c"]
  by simp

lemma neighbors_board: "neighbors st c \<subseteq> board st"
  by (auto simp: neighbors_filter board_def)

lemma nearby_mines_card:
  "nearby_mines (height st) (width st) M c = int (card (neighbors st c \<inter> M))"
proof -
  let ?xs = "List.product [fst c - 1 .. fst c + 1] [snd c - 1 .. snd c + 1]"
  let ?Q = "\<lambda>p. p \<noteq> c \<and> 0 \<le> fst p \<and> fst p < height st \<and> 0 \<le> snd p \<and> snd p < width st \<and> p \<in> M"
  have d: "distinct (filter ?Q ?xs)" by (simp add: distinct_product)
  have "neighbors st c \<inter> M = set (filter ?Q ?xs)"
    by (auto simp: neighbors_filter)
  then have "card (neighbors st c \<inter> M) = length (filter ?Q ?xs)"
    using distinct_card [OF d] by simp
  then show ?thesis by (simp add: nearby_mines_filter)
qed

lemma sound_init: "sound M (init_ai h w)"
  by (simp add: sound_def init_ai_def)

lemma observed_sound:
  assumes snd: "sound M st" and c: "c \<notin> M" and n: "n = nearby_mines (height st) (width st) M c"
  shows "sound M (observed c n st)"
proof -
  let ?st1 = "st\<lparr>moves_made := insert c (moves_made st)\<rparr>"
  let ?st2 = "?st1\<lparr>safes := safes ?st1 \<union> {c},
           knowledge := map (\<lambda>t. t\<lparr>cells := cells t - {c}\<rparr>) (knowledge ?st1)\<rparr>"
  have s1: "sound M ?st1" using snd by (simp add: sound_def board_def)
  have "{c} \<inter> M = {}" using c by simp
  with s1 have s2: "sound M ?st2" by (rule sound_all_safe)
  have m: "mark_safe c ?st1 = ?st2"
    using fold_mark_safe [of "[c]" ?st1] by simp
  have nb: "neighbors ?st2 c = neighbors st c" by (simp add: neighbors_def)
  have o: "observed c n st = ?st2\<lparr>knowledge := knowledge ?st2 @ [\<lparr>cells = neighbors st c, count = n\<rparr>]\<rparr>"
    unfolding observed_def Let_def m nb ..
  have "board ?st2 = board st" by (simp add: board_def)
  then have "\<forall>s\<in>set [\<lparr>cells = neighbors st c, count = n\<rparr>].
      cells s \<subseteq> board ?st2 \<and> count s = int (card (cells s \<inter> M))"
    using neighbors_board [of st c] n by (simp add: nearby_mines_card)
  with s2 show ?thesis unfolding o by (rule appended_sound)
qed

lemma add_knowledge_returns:
  assumes snd: "sound M st" and v: "valid_observation (height st) (width st) M (c, n)"
  shows "\<exists>k. (\<forall>j<k. snd (loop_pass (passes j (observed c n st))))
           \<and> \<not> snd (loop_pass (passes k (observed c n st)))
           \<and> add_knowledge c n st = Some (fst (loop_pass (passes k (observed c n st))))
           \<and> sound M (fst (loop_pass (passes k (observed c n st))))"
proof -
  from v have "c \<notin> M" and "n = nearby_mines (height st) (width st) M c"
    by (simp_all add: valid_observation_def)
  with snd have "sound M (observed c n st)" by (rule observed_sound)
  then show ?thesis unfolding add_knowledge_def by (rule deduce_returns)
qed

lemma add_knowledge_size:
  assumes "add_knowledge c n st = Some st'"
  shows "height st' = height st \<and> width st' = width st"
  using grows_deduce [OF assms [unfolded add_knowledge_def]]
  by (simp add: grows_def observed_fields)

lemma observe_all_sound:
  assumes "list_all (valid_observation (height st) (width st) M) obs" and "sound M st"
  shows "\<exists>st'. observe_all obs st = Some st' \<and> sound M st'
           \<and> height st' = height st \<and> width st' = width st"
  using assms
proof (induction obs arbitrary: st)
  case Nil
  then show ?case by simp
next
  case (Cons ob obs)
  from Cons.prems have v: "valid_observation (height st) (width st) M (fst ob, snd ob)"
    and vs: "list_all (valid_observation (height st) (width st) M) obs" by simp_all
  from add_knowledge_returns [OF Cons.prems(2) v] obtain st1
    where a: "add_knowledge (fst ob) (snd ob) st = Some st1" and s1: "sound M st1" by blast
  from add_knowledge_size [OF a] have sz: "height st1 = height st" "width st1 = width st"
    by simp_all
  from Cons.IH [of st1] vs s1 sz obtain st' where
    "observe_all obs st1 = Some st'" "sound M st'" "height st' = height st1" "width st' = width st1"
    by auto
  with a sz show ?case by simp
qed

section \<open>Termination and disjointness in a game\<close>

lemma quiet_pass:
  "\<not> snd (loop_pass st) \<longleftrightarrow>
   \<not> snd (certain_pass st) \<and> newly_inferred (knowledge (fst (certain_pass st))) = []"
  by (simp add: loop_pass_def Let_def split: prod.splits)

text \<open>
  Claim C2, as the code has it.  The claim needs one more condition, the one under which
  \<^verbatim>\<open>add_knowledge\<close> is called: the observed cell is no mine of the placement.  On any
  board and for any mine placement, when every observation is of a board cell that is no
  mine, with its true number of adjacent mines, every call of \<^verbatim>\<open>add_knowledge\<close>
  returns: all calls before the last have returned, and the loop of the last call makes
  \<open>k\<close> passes that find something and then a pass that reports no cell and appends no
  sentence, after which the call returns the engine of that pass.
\<close>

theorem add_knowledge_terminates:
  assumes "list_all (valid_observation h w M) (obs @ [(c, n)])"
  shows "\<exists>st k. observe_all obs (init_ai h w) = Some st
           \<and> (\<forall>j<k. snd (loop_pass (passes j (observed c n st))))
           \<and> \<not> snd (certain_pass (passes k (observed c n st)))
           \<and> newly_inferred (knowledge (fst (certain_pass (passes k (observed c n st))))) = []
           \<and> add_knowledge c n st = Some (fst (loop_pass (passes k (observed c n st))))"
proof -
  have hw: "height (init_ai h w) = h" "width (init_ai h w) = w" by (simp_all add: init_ai_def)
  from assms have vs: "list_all (valid_observation (height (init_ai h w)) (width (init_ai h w)) M) obs"
    and v: "valid_observation h w M (c, n)" by (simp_all add: hw)
  from observe_all_sound [OF vs sound_init] obtain st where
    st: "observe_all obs (init_ai h w) = Some st" "sound M st" "height st = h" "width st = w"
    by (auto simp: hw)
  from v st(3,4) have "valid_observation (height st) (width st) M (c, n)" by simp
  from add_knowledge_returns [OF st(2) this] obtain k where
    "\<forall>j<k. snd (loop_pass (passes j (observed c n st)))"
    "\<not> snd (loop_pass (passes k (observed c n st)))"
    "add_knowledge c n st = Some (fst (loop_pass (passes k (observed c n st))))"
    by blast
  with st(1) show ?thesis unfolding quiet_pass by blast
qed

theorem add_knowledge_terminates_witness:
  "list_all (valid_observation 3 3 {(2, 2)}) ([((0, 0), 0)] @ [((0, 1), 0)])
   \<and> (\<exists>st k. observe_all [((0, 0), 0)] (init_ai 3 3) = Some st
           \<and> (\<forall>j<k. snd (loop_pass (passes j (observed (0, 1) 0 st))))
           \<and> \<not> snd (certain_pass (passes k (observed (0, 1) 0 st)))
           \<and> newly_inferred (knowledge (fst (certain_pass (passes k (observed (0, 1) 0 st))))) = []
           \<and> add_knowledge (0, 1) 0 st = Some (fst (loop_pass (passes k (observed (0, 1) 0 st)))))"
proof -
  have h: "list_all (valid_observation 3 3 {(2, 2)}) ([((0, 0), 0)] @ [((0, 1), 0)])"
    by code_simp
  from h add_knowledge_terminates [OF h] show ?thesis by (rule conjI)
qed

text \<open>
  Claim C5, as the code has it.  The claim needs the same condition: the observed cells
  are no mines of the placement.  For every sequence of observations of board cells that
  are no mines, with their true numbers of adjacent mines, every call returns, and after
  it no cell is both a known mine and a known safe cell.
\<close>

theorem known_sets_disjoint:
  assumes "list_all (valid_observation h w M) obs"
  shows "\<exists>st. observe_all obs (init_ai h w) = Some st \<and> mines st \<inter> safes st = {}"
proof -
  have hw: "height (init_ai h w) = h" "width (init_ai h w) = w" by (simp_all add: init_ai_def)
  from assms have "list_all (valid_observation (height (init_ai h w)) (width (init_ai h w)) M) obs"
    by (simp add: hw)
  from observe_all_sound [OF this sound_init] obtain st where
    st: "observe_all obs (init_ai h w) = Some st" "sound M st"
    by blast
  from st(2) have "mines st \<inter> safes st = {}" unfolding sound_def by blast
  with st(1) show ?thesis by blast
qed

theorem known_sets_disjoint_witness:
  "list_all (valid_observation 1 2 {(0, 1)}) [((0, 0), 1)]
   \<and> (\<exists>st. observe_all [((0, 0), 1)] (init_ai 1 2) = Some st \<and> mines st \<inter> safes st = {})"
proof -
  have h: "list_all (valid_observation 1 2 {(0, 1)}) [((0, 0), 1)]"
    by code_simp
  from h known_sets_disjoint [OF h] show ?thesis by (rule conjI)
qed

section \<open>A call for a mine cell\<close>

lemma deduce_Some_quiet:
  assumes "deduce st = Some y"
  shows "\<exists>k. \<not> snd (loop_pass (passes k st))"
proof (rule deduce.raw_induct [OF _ assms])
  fix d st y
  assume IH: "\<And>x y. d x = Some y \<Longrightarrow> \<exists>k. \<not> snd (loop_pass (passes k x))"
    and eq: "(case loop_pass st of (st1, found) \<Rightarrow> if found then d st1 else Some st1) = Some y"
  obtain st1 found where p: "loop_pass st = (st1, found)" by (cases "loop_pass st")
  show "\<exists>k. \<not> snd (loop_pass (passes k st))"
  proof (cases found)
    case True
    with eq p have "d st1 = Some y" by simp
    from IH [OF this] obtain k where "\<not> snd (loop_pass (passes k st1))" by blast
    then have "\<not> snd (loop_pass (passes (Suc k) st))" using p by simp
    then show ?thesis by (rule exI)
  next
    case False
    with p have "\<not> snd (loop_pass (passes 0 st))" by simp
    then show ?thesis by (rule exI)
  qed
qed

lemma certain_at_empty:
  "cells (knowledge st ! i) = {} \<Longrightarrow> certain_at i (st, f) = (st, f)"
  by (simp add: certain_at_def truthy_known_safes truthy_known_mines)

lemma fold_certain_at_empty:
  "\<forall>i\<in>set is. cells (knowledge st ! i) = {} \<Longrightarrow> fold certain_at is (st, f) = (st, f)"
  by (induction "is") (simp_all add: certain_at_empty)

lemma breeding_certain_pass:
  assumes "breeding st"
  shows "certain_pass st = (st, False)"
proof -
  have "\<forall>i\<in>set [0 ..< length (knowledge st)]. cells (knowledge st ! i) = {}"
    using assms by (simp add: breeding_def)
  then show ?thesis unfolding certain_pass_def by (rule fold_certain_at_empty)
qed

lemma breeding_new:
  assumes "breeding st"
  shows "newly_inferred (knowledge st) \<noteq> []"
proof -
  let ?K = "knowledge st"
  let ?Cs = "count ` set ?K"
  from assms have empty: "\<And>s. s \<in> set ?K \<Longrightarrow> cells s = {}"
    and two: "\<exists>a\<in>set ?K. \<exists>b\<in>set ?K. count a \<noteq> count b"
    by (simp_all add: breeding_def)
  have fin: "finite ?Cs" by simp
  from two have ne: "?Cs \<noteq> {}" by auto
  from Max_in [OF fin ne] obtain a where a: "a \<in> set ?K" "count a = Max ?Cs" by auto
  from Min_in [OF fin ne] obtain b where b: "b \<in> set ?K" "count b = Min ?Cs" by auto
  have le: "\<And>s. s \<in> set ?K \<Longrightarrow> count s \<le> count a"
    using a(2) fin by simp
  have ge: "\<And>s. s \<in> set ?K \<Longrightarrow> count b \<le> count s"
    using b(2) fin by simp
  from two obtain x y where xy: "x \<in> set ?K" "y \<in> set ?K" "count x \<noteq> count y" by blast
  have lt: "count b < count a"
    using le [OF xy(1)] le [OF xy(2)] ge [OF xy(1)] ge [OF xy(2)] xy(3) by linarith
  then have ab: "a \<noteq> b" by auto
  have "\<exists>n. n \<in> set (newly_inferred ?K)"
  proof (cases "count b < 0")
    case True
    have "derive a b \<notin> set ?K"
    proof
      assume "derive a b \<in> set ?K"
      from le [OF this] True show False by (simp add: derive_def)
    qed
    moreover have "cells b \<subseteq> cells a" using empty [OF b(1)] by simp
    ultimately have "derive a b \<in> set (newly_inferred ?K)"
      unfolding newly_inferred_iff
      by (intro bexI [OF _ a(1)] bexI [OF _ b(1)] conjI ab refl)
    then show ?thesis by (rule exI)
  next
    case False
    have "derive b a \<notin> set ?K"
    proof
      assume "derive b a \<in> set ?K"
      from ge [OF this] False lt show False by (simp add: derive_def)
    qed
    moreover have "cells a \<subseteq> cells b" using empty [OF a(1)] by simp
    ultimately have "derive b a \<in> set (newly_inferred ?K)"
      unfolding newly_inferred_iff
      by (intro bexI [OF _ b(1)] bexI [OF _ a(1)] conjI ab [symmetric] refl)
    then show ?thesis by (rule exI)
  qed
  then show ?thesis by auto
qed

lemma newly_inferred_empty_cells:
  assumes "\<And>s. s \<in> set K \<Longrightarrow> cells s = {}" and "n \<in> set (newly_inferred K)"
  shows "cells n = {}"
  using assms unfolding newly_inferred_iff by (auto simp: derive_def)

lemma breeding_loop_pass:
  assumes "breeding st"
  shows "snd (loop_pass st)" and "breeding (fst (loop_pass st))"
proof -
  let ?new = "newly_inferred (knowledge st)"
  have ne: "?new \<noteq> []" using assms by (rule breeding_new)
  have lp: "loop_pass st = (st\<lparr>knowledge := knowledge st @ ?new\<rparr>, True)"
    using ne by (simp add: loop_pass_def breeding_certain_pass [OF assms])
  show "snd (loop_pass st)" by (simp add: lp)
  from assms have old: "\<And>s. s \<in> set (knowledge st) \<Longrightarrow> cells s = {}"
    and two: "\<exists>a\<in>set (knowledge st). \<exists>b\<in>set (knowledge st). count a \<noteq> count b"
    by (simp_all add: breeding_def)
  have new: "\<And>n. n \<in> set ?new \<Longrightarrow> cells n = {}"
    using old by (rule newly_inferred_empty_cells)
  have all: "\<forall>s\<in>set (knowledge st @ ?new). cells s = {}"
    using old new by auto
  from two obtain a b where "a \<in> set (knowledge st)" "b \<in> set (knowledge st)" "count a \<noteq> count b"
    by blast
  then have "a \<in> set (knowledge st @ ?new)" "b \<in> set (knowledge st @ ?new)" "count a \<noteq> count b"
    by simp_all
  then have "\<exists>a\<in>set (knowledge st @ ?new). \<exists>b\<in>set (knowledge st @ ?new). count a \<noteq> count b"
    by blast
  with all show "breeding (fst (loop_pass st))"
    by (simp add: lp breeding_def)
qed

lemma breeding_passes: "breeding st \<Longrightarrow> breeding (passes k st)"
  by (induction k arbitrary: st) (simp_all add: breeding_loop_pass)

lemma breeding_diverges:
  assumes "breeding st"
  shows "deduce st = None"
proof (cases "deduce st")
  case None
  then show ?thesis .
next
  case (Some y)
  from deduce_Some_quiet [OF this] obtain k where "\<not> snd (loop_pass (passes k st))" by blast
  moreover have "snd (loop_pass (passes k st))"
    using breeding_passes [OF assms] by (rule breeding_loop_pass)
  ultimately show ?thesis by simp
qed

text \<open>
  Claim C2 as stated fails.  On a 2 by 2 board with its mine at \<open>(0,1)\<close>, the cells
  \<open>(0,0)\<close> and \<open>(0,1)\<close> are on the board and 1 and 0 are their true counts.  The first
  call returns; the call for \<open>(0,1)\<close>, the mine, leaves \<open>{} = 1\<close> and \<open>{} = 0\<close> behind,
  and from then on every pass derives a sentence with a count not seen before, so the
  call never returns.
\<close>

theorem add_knowledge_diverges:
  "nearby_mines 2 2 {(0, 1)} (0, 0) = 1 \<and> nearby_mines 2 2 {(0, 1)} (0, 1) = 0
   \<and> add_knowledge (0, 0) 1 (init_ai 2 2) =
       Some \<lparr>height = 2, width = 2, moves_made = {(0, 0)}, mines = {}, safes = {(0, 0)},
              knowledge = [\<lparr>cells = {(0, 1), (1, 0), (1, 1)}, count = 1\<rparr>]\<rparr>
   \<and> add_knowledge (0, 1) 0
         \<lparr>height = 2, width = 2, moves_made = {(0, 0)}, mines = {}, safes = {(0, 0)},
            knowledge = [\<lparr>cells = {(0, 1), (1, 0), (1, 1)}, count = 1\<rparr>]\<rparr> = None
   \<and> observe_all [((0, 0), 1), ((0, 1), 0)] (init_ai 2 2) = None"
proof -
  let ?S1 = "\<lparr>height = 2, width = 2, moves_made = {(0, 0)}, mines = {}, safes = {(0, 0)},
              knowledge = [\<lparr>cells = {(0, 1), (1, 0), (1, 1)}, count = 1\<rparr>]\<rparr>"
  let ?S2 = "\<lparr>height = 2, width = 2, moves_made = {(0, 0), (0, 1)}, mines = {},
              safes = {(0, 0), (0, 1), (1, 0), (1, 1)},
              knowledge = [\<lparr>cells = {}, count = 1\<rparr>, \<lparr>cells = {}, count = 0\<rparr>,
                           \<lparr>cells = {}, count = - 1\<rparr>]\<rparr>"
  have n: "nearby_mines 2 2 {(0, 1)} (0, 0) = 1" "nearby_mines 2 2 {(0, 1)} (0, 1) = 0"
    by code_simp+
  have a1: "add_knowledge (0, 0) 1 (init_ai 2 2) = Some ?S1" by code_simp
  have p: "loop_pass (observed (0, 1) 0 ?S1) = (?S2, True)" by code_simp
  have "breeding ?S2" by code_simp
  then have "deduce ?S2 = None" by (rule breeding_diverges)
  with p have a2: "add_knowledge (0, 1) 0 ?S1 = None"
    using deduce_again [of "observed (0, 1) 0 ?S1"] by (simp add: add_knowledge_def)
  have "observe_all [((0, 0), 1), ((0, 1), 0)] (init_ai 2 2) = None"
    by (simp add: a1 a2)
  with n a1 a2 show ?thesis by (intro conjI)
qed

text \<open>
  Claim C5 as stated fails.  On a 1 by 2 board with its mine at \<open>(0,0)\<close>, the cells
  \<open>(0,1)\<close> and \<open>(0,0)\<close> are on the board and 1 and 0 are their true counts.  The call
  for \<open>(0,1)\<close> makes \<open>(0,0)\<close> a known mine, and the call for \<open>(0,0)\<close>, the mine, marks
  it safe as well.
\<close>

theorem known_sets_overlap:
  "nearby_mines 1 2 {(0, 0)} (0, 1) = 1 \<and> nearby_mines 1 2 {(0, 0)} (0, 0) = 0
   \<and> observe_all [((0, 1), 1), ((0, 0), 0)] (init_ai 1 2) =
       Some \<lparr>height = 1, width = 2, moves_made = {(0, 0), (0, 1)}, mines = {(0, 0)},
              safes = {(0, 0), (0, 1)},
              knowledge = [\<lparr>cells = {}, count = 0\<rparr>, \<lparr>cells = {}, count = 0\<rparr>]\<rparr>
   \<and> mines \<lparr>height = 1, width = 2, moves_made = {(0, 0), (0, 1)}, mines = {(0, 0)},
              safes = {(0, 0), (0, 1)},
              knowledge = [\<lparr>cells = {}, count = 0\<rparr>, \<lparr>cells = {}, count = 0\<rparr>]\<rparr>
       \<inter> safes \<lparr>height = 1, width = 2, moves_made = {(0, 0), (0, 1)}, mines = {(0, 0)},
              safes = {(0, 0), (0, 1)},
              knowledge = [\<lparr>cells = {}, count = 0\<rparr>, \<lparr>cells = {}, count = 0\<rparr>]\<rparr>
       = {(0, 0)}"
  by code_simp

end
